theory Spec2Isabelle
  imports Complex_Main
begin

section \<open>The binary search tree of \<^verbatim>\<open>bst.py\<close>\<close>

text \<open>
  The module stores key-value pairs in an unbalanced binary search tree. A
  \<^verbatim>\<open>TreeNode\<close> has the fields \<^verbatim>\<open>key\<close>, \<^verbatim>\<open>value\<close>, \<^verbatim>\<open>left\<close>, \<^verbatim>\<open>right\<close>, the two
  children being \<^verbatim>\<open>Optional[TreeNode]\<close>. The type below is that optional
  reference: \<open>Absent\<close> is Python's \<^verbatim>\<open>None\<close>, and \<open>TreeNode k v l r\<close> is a node
  with the fields in the order of the dataclass.

  Modelling decisions:
  \<^item> Keys are \<^verbatim>\<open>Any\<close> in the source and are compared with \<^verbatim>\<open>==\<close>, \<^verbatim>\<open><\<close> and \<^verbatim>\<open>>\<close>.
    The model takes them from a linear order, which is what the data model
    requires of them; keys that cannot be compared are outside the model.
  \<^item> The source mutates nodes in place and every node is owned by exactly one
    parent, so a method is a function from the tree before the call to the
    tree after it (and the returned value, if any).
  \<^item> Results of \<^verbatim>\<open>search\<close> are \<open>'v option\<close>: \<open>None\<close> is the returned \<^verbatim>\<open>None\<close>
    of a failed search, \<open>Some v\<close> a stored value.
  \<^item> Heights are Python integers, hence \<open>int\<close>.
  \<^item> The interpreter's recursion limit and memory are not modelled.
\<close>

datatype ('k, 'v) tree = Absent | TreeNode 'k 'v "('k, 'v) tree" "('k, 'v) tree"

record ('k, 'v) BinarySearchTree =
  root :: "('k, 'v) tree"

text \<open>\<^verbatim>\<open>__init__\<close>: the root starts as \<^verbatim>\<open>None\<close>.\<close>

definition init :: "('k, 'v) BinarySearchTree" where
  "init = \<lparr>root = Absent\<rparr>"

subsection \<open>insert\<close>

text \<open>
  The \<^verbatim>\<open>while current:\<close> loop of \<^verbatim>\<open>insert\<close>, started at \<open>current\<close>. It returns
  the subtree hanging from \<open>current\<close> after the loop has run. A node object is
  always true, so the loop would only stop at \<^verbatim>\<open>None\<close>, where it changes nothing.
\<close>

fun insert_loop :: "('k::linorder, 'v) tree \<Rightarrow> 'k \<Rightarrow> 'v \<Rightarrow> ('k, 'v) tree" where
  "insert_loop Absent key val = Absent"
| "insert_loop (TreeNode ck cv cl cr) key val =
     (if key = ck then TreeNode ck val cl cr
      else if key < ck then
        (if cl = Absent then TreeNode ck cv (TreeNode key val Absent Absent) cr
         else TreeNode ck cv (insert_loop cl key val) cr)
      else
        (if cr = Absent then TreeNode ck cv cl (TreeNode key val Absent Absent)
         else TreeNode ck cv cl (insert_loop cr key val)))"

definition insert_bst ::
  "('k::linorder, 'v) BinarySearchTree \<Rightarrow> 'k \<Rightarrow> 'v \<Rightarrow> ('k, 'v) BinarySearchTree" where
  "insert_bst self key val =
     (if root self = Absent then self\<lparr>root := TreeNode key val Absent Absent\<rparr>
      else self\<lparr>root := insert_loop (root self) key val\<rparr>)"

subsection \<open>search\<close>

fun search_loop :: "('k::linorder, 'v) tree \<Rightarrow> 'k \<Rightarrow> 'v option" where
  "search_loop Absent key = None"
| "search_loop (TreeNode ck cv cl cr) key =
     (if key = ck then Some cv
      else search_loop (if key < ck then cl else cr) key)"

definition search :: "('k::linorder, 'v) BinarySearchTree \<Rightarrow> 'k \<Rightarrow> 'v option" where
  "search self key = search_loop (root self) key"

subsection \<open>delete\<close>

text \<open>
  The successor loop \<^verbatim>\<open>while successor.left: successor = successor.left\<close>. Its
  state is a node, given here by that node's key, value and left child; the
  result is the key and the value of the node at which the loop stops.
\<close>

fun successor_loop :: "'k \<Rightarrow> 'v \<Rightarrow> ('k, 'v) tree \<Rightarrow> 'k \<times> 'v" where
  "successor_loop sk sv Absent = (sk, sv)"
| "successor_loop sk sv (TreeNode lk lv ll lr) = successor_loop lk lv ll"

text \<open>
  The nested function \<^verbatim>\<open>_delete(node, target)\<close>, returning the new subtree and
  the removed flag. In the last branch both children are nodes, and
  \<^verbatim>\<open>successor\<close> starts at \<^verbatim>\<open>node.right\<close>.
\<close>

fun delete_rec :: "('k::linorder, 'v) tree \<Rightarrow> 'k \<Rightarrow> ('k, 'v) tree \<times> bool" where
  "delete_rec Absent target = (Absent, False)"
| "delete_rec (TreeNode k v l r) target =
     (if target < k then
        (let (l', removed) = delete_rec l target in (TreeNode k v l' r, removed))
      else if target > k then
        (let (r', removed) = delete_rec r target in (TreeNode k v l r', removed))
      else
        (case (l, r) of
           (Absent, Absent) \<Rightarrow> (Absent, True)
         | (Absent, _) \<Rightarrow> (r, True)
         | (_, Absent) \<Rightarrow> (l, True)
         | (_, TreeNode rk rv rl rr) \<Rightarrow>
             (let (sk, sv) = successor_loop rk rv rl;
                  (r', _) = delete_rec r sk
              in (TreeNode sk sv l r', True))))"

definition delete ::
  "('k::linorder, 'v) BinarySearchTree \<Rightarrow> 'k \<Rightarrow> ('k, 'v) BinarySearchTree \<times> bool" where
  "delete self key =
     (let (new_root, removed_flag) = delete_rec (root self) key
      in (self\<lparr>root := new_root\<rparr>, removed_flag))"

subsection \<open>height and is_balanced\<close>

fun height_rec :: "('k, 'v) tree \<Rightarrow> int" where
  "height_rec Absent = 0"
| "height_rec (TreeNode k v l r) = 1 + max (height_rec l) (height_rec r)"

definition height :: "('k, 'v) BinarySearchTree \<Rightarrow> int" where
  "height self = height_rec (root self)"

fun check_rec :: "('k, 'v) tree \<Rightarrow> int \<times> bool" where
  "check_rec Absent = (0, True)"
| "check_rec (TreeNode k v l r) =
     (let (left_height, left_balanced) = check_rec l;
          (right_height, right_balanced) = check_rec r;
          h = 1 + max left_height right_height;
          balanced = (left_balanced \<and> right_balanced \<and> \<bar>left_height - right_height\<bar> \<le> 1)
      in (h, balanced))"

definition is_balanced :: "('k, 'v) BinarySearchTree \<Rightarrow> bool" where
  "is_balanced self = (let (_, balanced_flag) = check_rec (root self) in balanced_flag)"

text \<open>
  The function \<^verbatim>\<open>_demo\<close> builds a tree by five insertions; it serves as the
  concrete tree at which the theorems below are instantiated.
\<close>

definition demo :: "(int, string) BinarySearchTree" where
  "demo = foldl (\<lambda>tree (key, val). insert_bst tree key val) init
     [(5, ''root''), (3, ''left''), (7, ''right''), (2, ''leaf''), (4, ''mid'')]"

section \<open>Notions used to state the properties\<close>

text \<open>
  The in-order traversal of a tree, as key-value pairs and as keys only, the
  number of nodes reachable from a reference, and the ordering invariant of the
  data model: at every node, the keys of the left subtree are smaller and the
  keys of the right subtree are greater than the node's key.
\<close>

fun entries :: "('k, 'v) tree \<Rightarrow> ('k \<times> 'v) list" where
  "entries Absent = []"
| "entries (TreeNode k v l r) = entries l @ (k, v) # entries r"

fun inorder_keys :: "('k, 'v) tree \<Rightarrow> 'k list" where
  "inorder_keys Absent = []"
| "inorder_keys (TreeNode k v l r) = inorder_keys l @ k # inorder_keys r"

fun count_nodes :: "('k, 'v) tree \<Rightarrow> nat" where
  "count_nodes Absent = 0"
| "count_nodes (TreeNode k v l r) = Suc (count_nodes l + count_nodes r)"

fun bst_ordered :: "('k::linorder, 'v) tree \<Rightarrow> bool" where
  "bst_ordered Absent = True"
| "bst_ordered (TreeNode k v l r) =
     ((\<forall>x \<in> set (inorder_keys l). x < k) \<and> (\<forall>x \<in> set (inorder_keys r). k < x) \<and>
      bst_ordered l \<and> bst_ordered r)"

text \<open>The shape of a tree: the tree with keys and values erased.\<close>

fun shape :: "('k, 'v) tree \<Rightarrow> (unit, unit) tree" where
  "shape Absent = Absent"
| "shape (TreeNode k v l r) = TreeNode () () (shape l) (shape r)"

text \<open>Sequences of public mutating calls, run from the empty tree.\<close>

datatype ('k, 'v) op = Insert 'k 'v | Delete 'k

fun apply_op ::
  "('k::linorder, 'v) BinarySearchTree \<Rightarrow> ('k, 'v) op \<Rightarrow> ('k, 'v) BinarySearchTree" where
  "apply_op self (Insert key val) = insert_bst self key val"
| "apply_op self (Delete key) = fst (delete self key)"

definition run_ops ::
  "('k::linorder, 'v) op list \<Rightarrow> ('k, 'v) BinarySearchTree" where
  "run_ops ops = foldl apply_op init ops"

definition insert_all ::
  "('k::linorder \<times> 'v) list \<Rightarrow> ('k, 'v) BinarySearchTree" where
  "insert_all kvs = foldl (\<lambda>self (key, val). insert_bst self key val) init kvs"

text \<open>
  The height as the specification words it: the number of nodes on the longest
  path from the root to a leaf, a leaf being a node without children; 0 when
  there is no path.
\<close>

fun root_to_leaf_paths :: "('k, 'v) tree \<Rightarrow> 'k list list" where
  "root_to_leaf_paths Absent = []"
| "root_to_leaf_paths (TreeNode k v Absent Absent) = [[k]]"
| "root_to_leaf_paths (TreeNode k v l r) =
     map ((#) k) (root_to_leaf_paths l @ root_to_leaf_paths r)"

definition longest_path_nodes :: "('k, 'v) tree \<Rightarrow> int" where
  "longest_path_nodes t = foldr max (map (\<lambda>p. int (length p)) (root_to_leaf_paths t)) 0"

text \<open>
  Balance as the specification words it: at every node of the tree, the heights
  of the left and the right subtree (each computed by \<^verbatim>\<open>_height\<close>) differ by at
  most 1.
\<close>

fun nodes :: "('k, 'v) tree \<Rightarrow> ('k, 'v) tree list" where
  "nodes Absent = []"
| "nodes (TreeNode k v l r) = TreeNode k v l r # nodes l @ nodes r"

fun height_difference_ok :: "('k, 'v) tree \<Rightarrow> bool" where
  "height_difference_ok Absent = True"
| "height_difference_ok (TreeNode k v l r) = (\<bar>height_rec l - height_rec r\<bar> \<le> 1)"

definition balanced_naive :: "('k, 'v) tree \<Rightarrow> bool" where
  "balanced_naive t = list_all height_difference_ok (nodes t)"

text \<open>
  \<^verbatim>\<open>_delete(node, target)\<close> once more, with a record of the structural cases
  it goes through: every branch returns what the branch of \<open>delete_rec\<close>
  returns, and the three branches taken at a matched node add their case to
  the list, the two-children branch before the cases of its recursive call. A
  call that finds no node has the empty list.
\<close>

datatype delete_case = Leaf_case | One_child_case | Two_children_case

fun delete_rec_traced ::
  "('k::linorder, 'v) tree \<Rightarrow> 'k \<Rightarrow> (('k, 'v) tree \<times> bool) \<times> delete_case list" where
  "delete_rec_traced Absent target = ((Absent, False), [])"
| "delete_rec_traced (TreeNode k v l r) target =
     (if target < k then
        (let ((l', removed), cases) = delete_rec_traced l target
         in ((TreeNode k v l' r, removed), cases))
      else if target > k then
        (let ((r', removed), cases) = delete_rec_traced r target
         in ((TreeNode k v l r', removed), cases))
      else
        (case (l, r) of
           (Absent, Absent) \<Rightarrow> ((Absent, True), [Leaf_case])
         | (Absent, _) \<Rightarrow> ((r, True), [One_child_case])
         | (_, Absent) \<Rightarrow> ((l, True), [One_child_case])
         | (_, TreeNode rk rv rl rr) \<Rightarrow>
             (let (sk, sv) = successor_loop rk rv rl;
                  ((r', _), cases) = delete_rec_traced r sk
              in ((TreeNode sk sv l r', True), Two_children_case # cases))))"

text \<open>
  The leftmost node of a subtree, reached by following left references as long
  as there is one.
\<close>

fun leftmost_node :: "('k, 'v) tree \<Rightarrow> ('k, 'v) tree" where
  "leftmost_node Absent = Absent"
| "leftmost_node (TreeNode k v l r) =
     (if l = Absent then TreeNode k v l r else leftmost_node l)"

text \<open>
  The subtree with its leftmost node taken out: the right subtree of that node
  (absent when the node is a leaf) takes the node's place.
\<close>

fun splice_leftmost :: "('k, 'v) tree \<Rightarrow> ('k, 'v) tree" where
  "splice_leftmost Absent = Absent"
| "splice_leftmost (TreeNode k v l r) =
     (if l = Absent then r else TreeNode k v (splice_leftmost l) r)"

section \<open>Auxiliary facts\<close>

subsection \<open>Traversals and the ordering invariant\<close>

lemma inorder_keys_entries: "inorder_keys t = map fst (entries t)"
  by (induction t) simp_all

lemma entries_empty_iff: "entries t = [] \<longleftrightarrow> t = Absent"
  by (cases t) simp_all

lemma inorder_keys_empty_iff: "inorder_keys t = [] \<longleftrightarrow> t = Absent"
  by (cases t) simp_all

lemma entry_key_in_keys: "(x, v) \<in> set (entries t) \<Longrightarrow> x \<in> set (inorder_keys t)"
  by (force simp: inorder_keys_entries)

lemma bst_ordered_iff_sorted: "bst_ordered t \<longleftrightarrow> sorted_wrt (<) (inorder_keys t)"
proof (induction t)
  case Absent
  show ?case by simp
next
  case (TreeNode k v l r)
  have "x < y" if "\<forall>x \<in> set (inorder_keys l). x < k" "\<forall>y \<in> set (inorder_keys r). k < y"
    "x \<in> set (inorder_keys l)" "y \<in> set (inorder_keys r)" for x y
    using that by (meson less_trans)
  with TreeNode show ?case
    by (auto simp: sorted_wrt_append)
qed

lemma bst_ordered_distinct: "bst_ordered t \<Longrightarrow> distinct (inorder_keys t)"
  by (simp add: bst_ordered_iff_sorted strict_sorted_iff)

lemma bst_entry_unique:
  "bst_ordered t \<Longrightarrow> (x, v) \<in> set (entries t) \<Longrightarrow> (x, w) \<in> set (entries t) \<Longrightarrow> v = w"
  using bst_ordered_distinct [of t] eq_key_imp_eq_value [of "entries t" x v w]
  by (simp add: inorder_keys_entries)

lemma sorted_hd_least:
  "sorted_wrt (<) (xs :: 'a::linorder list) \<Longrightarrow> x \<in> set xs \<Longrightarrow> hd xs \<le> x"
  by (cases xs) auto

subsection \<open>insert\<close>

lemma keys_insert_loop:
  "t \<noteq> Absent \<Longrightarrow> set (inorder_keys (insert_loop t x v)) = insert x (set (inorder_keys t))"
  by (induction t) auto

lemma bst_insert_loop: "bst_ordered t \<Longrightarrow> bst_ordered (insert_loop t x v)"
  by (induction t) (auto simp: keys_insert_loop)

lemma search_insert_loop:
  "t \<noteq> Absent \<Longrightarrow>
   search_loop (insert_loop t x v) y = (if y = x then Some v else search_loop t y)"
  by (induction t) auto

subsection \<open>search\<close>

lemma search_absent: "x \<notin> set (inorder_keys t) \<Longrightarrow> search_loop t x = None"
  by (induction t) auto

lemma search_entries:
  "bst_ordered t \<Longrightarrow> search_loop t x = Some v \<longleftrightarrow> (x, v) \<in> set (entries t)"
proof (induction t)
  case Absent
  show ?case by simp
next
  case (TreeNode k w l r)
  have l: "x < k" if "(x, v) \<in> set (entries l)"
    using that TreeNode.prems entry_key_in_keys [of x v l] by simp
  have r: "k < x" if "(x, v) \<in> set (entries r)"
    using that TreeNode.prems entry_key_in_keys [of x v r] by simp
  from TreeNode show ?case
    using l r by (cases "x = k"; cases "x < k") auto
qed


subsection \<open>delete\<close>

lemma successor_loop_hd: "successor_loop k v l = hd (entries l @ [(k, v)])"
proof (induction l arbitrary: k v)
  case Absent
  show ?case by simp
next
  case (TreeNode lk lv ll lr)
  then show ?case by (simp add: hd_append entries_empty_iff)
qed

lemma delete_rec_lt:
  "x < k \<Longrightarrow> delete_rec (TreeNode k v l r) x =
     (TreeNode k v (fst (delete_rec l x)) r, snd (delete_rec l x))"
  by (simp add: split_def Let_def)

lemma delete_rec_gt:
  "k < x \<Longrightarrow> delete_rec (TreeNode k v l r) x =
     (TreeNode k v l (fst (delete_rec r x)), snd (delete_rec r x))"
  by (auto simp: split_def Let_def)

lemma delete_rec_leaf: "delete_rec (TreeNode k v Absent Absent) k = (Absent, True)"
  by simp

lemma delete_rec_right_only:
  "r \<noteq> Absent \<Longrightarrow> delete_rec (TreeNode k v Absent r) k = (r, True)"
  by (cases r) simp_all

lemma delete_rec_left_only:
  "l \<noteq> Absent \<Longrightarrow> delete_rec (TreeNode k v l Absent) k = (l, True)"
  by (cases l) simp_all

lemma delete_rec_two_children:
  "l \<noteq> Absent \<Longrightarrow> r \<noteq> Absent \<Longrightarrow>
   delete_rec (TreeNode k v l r) k =
     (TreeNode (fst (hd (entries r))) (snd (hd (entries r))) l
        (fst (delete_rec r (fst (hd (entries r))))), True)"
  apply (subst delete_rec.simps(2))
  apply (cases l; cases r)
  apply (simp_all add: Let_def split_def successor_loop_hd hd_append entries_empty_iff
      del: delete_rec.simps)
  done


lemma delete_rec_absent_key:
  "x \<notin> set (inorder_keys t) \<Longrightarrow> delete_rec t x = (t, False)"
proof (induction t)
  case Absent
  show ?case by simp
next
  case (TreeNode k v l r)
  then have "x \<noteq> k" "delete_rec l x = (l, False)" "delete_rec r x = (r, False)"
    by auto
  then show ?case
    by (cases "x < k") (auto simp: delete_rec_lt delete_rec_gt simp del: delete_rec.simps)
qed

lemma hd_entries_in: "r \<noteq> Absent \<Longrightarrow> hd (entries r) \<in> set (entries r)"
  by (simp add: entries_empty_iff)

lemma hd_entries_least:
  "bst_ordered r \<Longrightarrow> x \<in> set (inorder_keys r) \<Longrightarrow> fst (hd (entries r)) \<le> x"
proof -
  assume a: "bst_ordered r" "x \<in> set (inorder_keys r)"
  then have "inorder_keys r \<noteq> []" by auto
  then have "hd (inorder_keys r) = fst (hd (entries r))"
    by (simp add: inorder_keys_entries hd_map)
  with a sorted_hd_least [of "inorder_keys r" x] show ?thesis
    by (simp add: bst_ordered_iff_sorted)
qed

lemma entries_delete_subset:
  "set (entries (fst (delete_rec t x))) \<subseteq> set (entries t)"
proof (induction t arbitrary: x)
  case Absent
  show ?case by simp
next
  case (TreeNode k v l r)
  consider (lt) "x < k" | (gt) "k < x" | (eq) "x = k"
    by (meson less_linear)
  then show ?case
  proof cases
    case lt
    show ?thesis
      using TreeNode.IH(1) [of x] by (auto simp only: delete_rec_lt [OF lt] fst_conv entries.simps set_append set_simps)
  next
    case gt
    show ?thesis
      using TreeNode.IH(2) [of x] by (auto simp only: delete_rec_gt [OF gt] fst_conv entries.simps set_append set_simps)
  next
    case eq
    show ?thesis
    proof (cases "l = Absent")
      case True
      then show ?thesis
        unfolding eq by (cases "r = Absent") (auto simp: delete_rec_leaf delete_rec_right_only simp del: delete_rec.simps(2))
    next
      case False
      note l_node = False
      show ?thesis
      proof (cases "r = Absent")
        case True
        with l_node show ?thesis
          unfolding eq by (auto simp: delete_rec_left_only simp del: delete_rec.simps(2))
      next
        case False
        have "hd (entries r) \<in> set (entries r)"
          using False by (rule hd_entries_in)
        then have "(fst (hd (entries r)), snd (hd (entries r))) \<in> set (entries r)"
          by simp
        then show ?thesis
          unfolding eq delete_rec_two_children [OF l_node False]
          using TreeNode.IH(2) [of "fst (hd (entries r))"] by auto
      qed
    qed
  qed
qed


lemma keys_delete_subset:
  "a \<in> set (inorder_keys (fst (delete_rec t x))) \<Longrightarrow> a \<in> set (inorder_keys t)"
  using entries_delete_subset [of t x] by (auto simp: inorder_keys_entries)

lemma delete_rec_correct:
  "bst_ordered t \<Longrightarrow>
   bst_ordered (fst (delete_rec t x)) \<and>
   set (entries (fst (delete_rec t x))) = {e \<in> set (entries t). fst e \<noteq> x}"
proof (induction t arbitrary: x)
  case Absent
  show ?case by simp
next
  case (TreeNode k v l r)
  have bl: "bst_ordered l" and br: "bst_ordered r"
    and lk: "\<And>a. a \<in> set (inorder_keys l) \<Longrightarrow> a < k"
    and rk: "\<And>a. a \<in> set (inorder_keys r) \<Longrightarrow> k < a"
    using TreeNode.prems by auto
  have el: "\<And>e. e \<in> set (entries l) \<Longrightarrow> fst e < k"
    using lk by (auto simp: inorder_keys_entries)
  have er: "\<And>e. e \<in> set (entries r) \<Longrightarrow> k < fst e"
    using rk by (auto simp: inorder_keys_entries)
  note IHl = TreeNode.IH(1) [OF bl]
  note IHr = TreeNode.IH(2) [OF br]
  consider (lt) "x < k" | (gt) "k < x" | (eq) "x = k"
    by (meson less_linear)
  then show ?case
  proof cases
    case lt
    have "bst_ordered (TreeNode k v (fst (delete_rec l x)) r)"
      using IHl [of x] br lk rk keys_delete_subset [of _ l x] by simp
    moreover have "set (entries (TreeNode k v (fst (delete_rec l x)) r)) =
        {e \<in> set (entries (TreeNode k v l r)). fst e \<noteq> x}"
    proof -
      have "fst e \<noteq> x" if "e \<in> set (entries r)" for e
        using er [OF that] lt by auto
      moreover have "k \<noteq> x" using lt by simp
      ultimately show ?thesis
        using IHl [of x] by auto
    qed
    ultimately show ?thesis
      by (simp only: delete_rec_lt [OF lt] fst_conv)
  next
    case gt
    have "bst_ordered (TreeNode k v l (fst (delete_rec r x)))"
      using IHr [of x] bl lk rk keys_delete_subset [of _ r x] by simp
    moreover have "set (entries (TreeNode k v l (fst (delete_rec r x)))) =
        {e \<in> set (entries (TreeNode k v l r)). fst e \<noteq> x}"
    proof -
      have "fst e \<noteq> x" if "e \<in> set (entries l)" for e
        using el [OF that] gt by auto
      moreover have "k \<noteq> x" using gt by simp
      ultimately show ?thesis
        using IHr [of x] by auto
    qed
    ultimately show ?thesis
      by (simp only: delete_rec_gt [OF gt] fst_conv)
  next
    case eq
    have nl: "fst e \<noteq> k" if "e \<in> set (entries l)" for e
      using el [OF that] by simp
    have nr: "fst e \<noteq> k" if "e \<in> set (entries r)" for e
      using er [OF that] by simp
    show ?thesis
    proof (cases "l = Absent")
      case True
      show ?thesis
      proof (cases "r = Absent")
        case True
        with \<open>l = Absent\<close> show ?thesis
          unfolding eq by (simp add: delete_rec_leaf del: delete_rec.simps(2))
      next
        case False
        with \<open>l = Absent\<close> br nr show ?thesis
          unfolding eq by (auto simp: delete_rec_right_only simp del: delete_rec.simps(2))
      qed
    next
      case False
      note l_node = False
      show ?thesis
      proof (cases "r = Absent")
        case True
        with l_node bl nl show ?thesis
          unfolding eq by (auto simp: delete_rec_left_only simp del: delete_rec.simps(2))
      next
        case False
        define s where "s = hd (entries r)"
        define r' where "r' = fst (delete_rec r (fst s))"
        have s_in: "s \<in> set (entries r)"
          unfolding s_def using False by (rule hd_entries_in)
        then have s_key: "fst s \<in> set (inorder_keys r)"
          by (auto simp: inorder_keys_entries)
        have s_least: "fst s \<le> a" if "a \<in> set (inorder_keys r)" for a
          unfolding s_def using br that by (rule hd_entries_least)
        have s_uniq: "e = s" if "e \<in> set (entries r)" "fst e = fst s" for e
          using bst_entry_unique [OF br, of "fst s" "snd e" "snd s"] that s_in
          by (cases e; cases s) simp
        have res: "fst (delete_rec (TreeNode k v l r) k) = TreeNode (fst s) (snd s) l r'"
          unfolding s_def r'_def delete_rec_two_children [OF l_node False] by simp
        have r'_bst: "bst_ordered r'"
          and r'_entries: "set (entries r') = {e \<in> set (entries r). fst e \<noteq> fst s}"
          unfolding r'_def using IHr [of "fst s"] by simp_all
        have r'_keys: "a \<in> set (inorder_keys r) \<and> a \<noteq> fst s"
          if "a \<in> set (inorder_keys r')" for a
          using that r'_entries by (auto simp: inorder_keys_entries)
        have "bst_ordered (TreeNode (fst s) (snd s) l r')"
        proof -
          have "a < fst s" if "a \<in> set (inorder_keys l)" for a
            using lk [OF that] rk [OF s_key] by simp
          moreover have "fst s < a" if "a \<in> set (inorder_keys r')" for a
            using r'_keys [OF that] s_least [of a] by auto
          ultimately show ?thesis
            using bl r'_bst by simp
        qed
        moreover have "set (entries (TreeNode (fst s) (snd s) l r')) =
            {e \<in> set (entries (TreeNode k v l r)). fst e \<noteq> k}"
        proof -
          have "set (entries r') = set (entries r) - {s}"
            using r'_entries s_uniq by auto
          then have "set (entries (TreeNode (fst s) (snd s) l r')) = set (entries l) \<union> set (entries r)"
            using s_in by auto
          also have "\<dots> = {e \<in> set (entries (TreeNode k v l r)). fst e \<noteq> k}"
            using nl nr by auto
          finally show ?thesis .
        qed
        ultimately show ?thesis
          unfolding eq by (simp only: res)
      qed
    qed
  qed
qed


lemma bst_delete_rec: "bst_ordered t \<Longrightarrow> bst_ordered (fst (delete_rec t x))"
  by (simp add: delete_rec_correct)

lemma entries_delete_rec:
  "bst_ordered t \<Longrightarrow>
   set (entries (fst (delete_rec t x))) = {e \<in> set (entries t). fst e \<noteq> x}"
  by (simp add: delete_rec_correct)

lemma search_delete_rec:
  assumes "bst_ordered t"
  shows "search_loop (fst (delete_rec t x)) y = (if y = x then None else search_loop t y)"
proof -
  have "search_loop (fst (delete_rec t x)) y = Some v \<longleftrightarrow>
      (if y = x then None else search_loop t y) = Some v" for v
    using assms
    by (simp add: search_entries bst_delete_rec entries_delete_rec)
  then show ?thesis
    by (metis option.exhaust)
qed

lemma delete_rec_present:
  "bst_ordered t \<Longrightarrow> x \<in> set (inorder_keys t) \<Longrightarrow>
   snd (delete_rec t x) \<and> Suc (count_nodes (fst (delete_rec t x))) = count_nodes t"
proof (induction t arbitrary: x)
  case Absent
  then show ?case by simp
next
  case (TreeNode k v l r)
  have bl: "bst_ordered l" and br: "bst_ordered r"
    and lk: "\<And>a. a \<in> set (inorder_keys l) \<Longrightarrow> a < k"
    and rk: "\<And>a. a \<in> set (inorder_keys r) \<Longrightarrow> k < a"
    using TreeNode.prems by auto
  consider (lt) "x < k" | (gt) "k < x" | (eq) "x = k"
    by (meson less_linear)
  then show ?case
  proof cases
    case lt
    then have "x \<in> set (inorder_keys l)"
      using TreeNode.prems(2) rk [of x] by auto
    then show ?thesis
      using TreeNode.IH(1) [OF bl, of x] by (simp add: delete_rec_lt [OF lt] del: delete_rec.simps(2))
  next
    case gt
    then have "x \<in> set (inorder_keys r)"
      using TreeNode.prems(2) lk [of x] by auto
    then show ?thesis
      using TreeNode.IH(2) [OF br, of x] by (simp add: delete_rec_gt [OF gt] del: delete_rec.simps(2))
  next
    case eq
    show ?thesis
    proof (cases "l = Absent")
      case True
      then show ?thesis
        unfolding eq
        by (cases "r = Absent") (simp_all add: delete_rec_leaf delete_rec_right_only del: delete_rec.simps(2))
    next
      case False
      note l_node = False
      show ?thesis
      proof (cases "r = Absent")
        case True
        with l_node show ?thesis
          unfolding eq by (simp add: delete_rec_left_only del: delete_rec.simps(2))
      next
        case False
        have "fst (hd (entries r)) \<in> set (inorder_keys r)"
          using hd_entries_in [OF False] by (simp add: inorder_keys_entries)
        then show ?thesis
          unfolding eq delete_rec_two_children [OF l_node False]
          using TreeNode.IH(2) [OF br, of "fst (hd (entries r))"] by simp
      qed
    qed
  qed
qed

subsection \<open>The public methods\<close>

lemma demo_root:
  "root demo =
     TreeNode 5 ''root''
       (TreeNode 3 ''left'' (TreeNode 2 ''leaf'' Absent Absent) (TreeNode 4 ''mid'' Absent Absent))
       (TreeNode 7 ''right'' Absent Absent)"
  by (simp add: demo_def init_def insert_bst_def)

lemma delete_unfold:
  "delete self key =
     (self\<lparr>root := fst (delete_rec (root self) key)\<rparr>, snd (delete_rec (root self) key))"
  by (simp add: delete_def split_def Let_def)

lemma is_balanced_unfold: "is_balanced self = snd (check_rec (root self))"
  by (simp add: is_balanced_def split_def)

lemma bst_insert_bst: "bst_ordered (root self) \<Longrightarrow> bst_ordered (root (insert_bst self key val))"
  by (simp add: insert_bst_def bst_insert_loop)

lemma bst_delete: "bst_ordered (root self) \<Longrightarrow> bst_ordered (root (fst (delete self key)))"
  by (simp add: delete_unfold bst_delete_rec)

lemma bst_apply_op: "bst_ordered (root self) \<Longrightarrow> bst_ordered (root (apply_op self opn))"
  by (cases opn) (simp_all add: bst_insert_bst bst_delete)

lemma bst_foldl_apply_op:
  "bst_ordered (root self) \<Longrightarrow> bst_ordered (root (foldl apply_op self ops))"
  by (induction ops arbitrary: self) (simp_all add: bst_apply_op)

lemma check_rec_eq: "check_rec t = (height_rec t, balanced_naive t)"
  by (induction t) (auto simp: balanced_naive_def)

lemma height_rec_nonneg: "0 \<le> height_rec t"
  by (induction t) auto

subsection \<open>Heights\<close>

lemma foldr_max_nonneg: "0 \<le> foldr max xs (0::int)"
  by (induction xs) auto

lemma foldr_max_append:
  "foldr max (xs @ ys) (0::int) = max (foldr max xs 0) (foldr max ys 0)"
  using foldr_max_nonneg [of ys] by (induction xs) auto

lemma foldr_max_cons_paths:
  "ps \<noteq> [] \<Longrightarrow>
   foldr max (map (\<lambda>p. int (length p)) (map ((#) k) ps)) 0 =
     1 + foldr max (map (\<lambda>p. int (length p)) ps) 0"
proof (induction ps)
  case Nil
  then show ?case by simp
next
  case (Cons p ps)
  show ?case
  proof (cases "ps = []")
    case True
    then show ?thesis by simp
  next
    case False
    with Cons.IH show ?thesis by simp
  qed
qed

lemma paths_empty_iff: "root_to_leaf_paths t = [] \<longleftrightarrow> t = Absent"
  by (induction t rule: root_to_leaf_paths.induct) auto

lemma longest_path_absent: "longest_path_nodes Absent = 0"
  by (simp add: longest_path_nodes_def)

lemma longest_path_node:
  "longest_path_nodes (TreeNode k v l r) = 1 + max (longest_path_nodes l) (longest_path_nodes r)"
proof (cases "l = Absent \<and> r = Absent")
  case True
  then show ?thesis by (simp add: longest_path_nodes_def)
next
  case False
  then have eq: "root_to_leaf_paths (TreeNode k v l r) =
      map ((#) k) (root_to_leaf_paths l @ root_to_leaf_paths r)"
    by (cases l; cases r) simp_all
  from False have "root_to_leaf_paths l @ root_to_leaf_paths r \<noteq> []"
    by (simp add: paths_empty_iff)
  then have "foldr max (map (\<lambda>p. int (length p))
        (map ((#) k) (root_to_leaf_paths l @ root_to_leaf_paths r))) 0 =
      1 + foldr max (map (\<lambda>p. int (length p)) (root_to_leaf_paths l @ root_to_leaf_paths r)) 0"
    by (rule foldr_max_cons_paths)
  also have "\<dots> = 1 + max (foldr max (map (\<lambda>p. int (length p)) (root_to_leaf_paths l)) 0)
      (foldr max (map (\<lambda>p. int (length p)) (root_to_leaf_paths r)) 0)"
    by (simp only: map_append foldr_max_append)
  finally show ?thesis
    unfolding longest_path_nodes_def eq .
qed

lemma height_rec_longest_path: "height_rec t = longest_path_nodes t"
  by (induction t) (simp_all add: longest_path_absent longest_path_node)

lemma count_nodes_bound: "int (count_nodes t) + 1 \<le> 2 ^ nat (height_rec t)"
proof (induction t)
  case Absent
  show ?case by simp
next
  case (TreeNode k v l r)
  let ?m = "max (height_rec l) (height_rec r)"
  have m0: "0 \<le> ?m" using height_rec_nonneg [of l] by simp
  have "(2::int) ^ nat (height_rec l) \<le> 2 ^ nat ?m" "(2::int) ^ nat (height_rec r) \<le> 2 ^ nat ?m"
    by (simp_all add: power_increasing)
  with TreeNode have "int (count_nodes l) + 1 + (int (count_nodes r) + 1) \<le> 2 * 2 ^ nat ?m"
    by linarith
  moreover have "nat (1 + ?m) = Suc (nat ?m)"
    using m0 by simp
  ultimately show ?case by simp
qed

lemma height_le_count: "height_rec t \<le> int (count_nodes t)"
  by (induction t) auto

subsection \<open>Repeated insertion\<close>

lemma insert_loop_not_absent: "t \<noteq> Absent \<Longrightarrow> insert_loop t x v \<noteq> Absent"
  by (cases t) auto

lemma insert_bst_root_not_absent: "root (insert_bst self key val) \<noteq> Absent"
  by (simp add: insert_bst_def insert_loop_not_absent)

lemma search_insert_bst:
  "search (insert_bst self key val) k = (if k = key then Some val else search self k)"
  by (simp add: search_def insert_bst_def search_insert_loop)

lemma search_foldl_insert:
  "search (foldl (\<lambda>self (key, val). insert_bst self key val) self kvs) k =
     (case map_of (rev kvs) k of Some v \<Rightarrow> Some v | None \<Rightarrow> search self k)"
proof (induction kvs arbitrary: self)
  case Nil
  show ?case by simp
next
  case (Cons kv kvs)
  obtain key val where kv: "kv = (key, val)" by (cases kv)
  show ?case
    by (simp add: kv Cons.IH search_insert_bst map_add_def split: option.split)
qed

lemma search_insert_all: "search (insert_all kvs) k = map_of (rev kvs) k"
proof -
  have "search (insert_all kvs) k =
      (case map_of (rev kvs) k of Some v \<Rightarrow> Some v | None \<Rightarrow> search init k)"
    unfolding insert_all_def by (rule search_foldl_insert)
  moreover have "search init k = None"
    by (simp add: search_def init_def)
  ultimately show ?thesis
    by (cases "map_of (rev kvs) k") simp_all
qed

lemma insert_loop_absent_iff:
  "insert_loop t x v = Absent \<longleftrightarrow> t = Absent"
  "Absent = insert_loop t x v \<longleftrightarrow> t = Absent"
  by (cases t; auto)+

lemma insert_loop_twice:
  "insert_loop (insert_loop t x v) x w = insert_loop t x w"
  by (induction t) (auto simp: insert_loop_absent_iff)

lemma shape_insert_loop: "shape (insert_loop t x v) = shape (insert_loop t x w)"
  by (induction t) auto

lemma keys_insert_loop_value:
  "inorder_keys (insert_loop t x v) = inorder_keys (insert_loop t x w)"
  by (induction t) auto

lemma keys_insert_bst_value:
  "inorder_keys (root (insert_bst self key v1)) = inorder_keys (root (insert_bst self key v2))"
  using keys_insert_loop_value [of "root self" key v1 v2] by (simp add: insert_bst_def)

lemma insert_bst_twice: "insert_bst (insert_bst self key v1) key v2 = insert_bst self key v2"
proof (cases "root self = Absent")
  case True
  then show ?thesis by (simp add: insert_bst_def)
next
  case False
  then show ?thesis
    by (simp add: insert_bst_def insert_loop_not_absent insert_loop_twice)
qed

lemma shape_insert_bst: "shape (root (insert_bst self key v1)) = shape (root (insert_bst self key v2))"
  using shape_insert_loop [of "root self" key v1 v2] by (simp add: insert_bst_def)

lemma count_nodes_shape: "count_nodes (shape t) = count_nodes t"
  by (induction t) auto

lemma filter_key_entries:
  "bst_ordered t \<Longrightarrow>
   filter (\<lambda>e. fst e = x) (entries t) =
     (case search_loop t x of None \<Rightarrow> [] | Some v \<Rightarrow> [(x, v)])"
proof (induction t)
  case Absent
  show ?case by simp
next
  case (TreeNode k v l r)
  have bl: "bst_ordered l" and br: "bst_ordered r"
    and el: "\<And>e. e \<in> set (entries l) \<Longrightarrow> fst e < k"
    and er: "\<And>e. e \<in> set (entries r) \<Longrightarrow> k < fst e"
    using TreeNode.prems by (auto simp: inorder_keys_entries)
  consider (lt) "x < k" | (gt) "k < x" | (eq) "x = k"
    by (meson less_linear)
  then show ?case
  proof cases
    case lt
    have "fst e \<noteq> x" if "e \<in> set (entries r)" for e
      using er [OF that] lt by auto
    then have "filter (\<lambda>e. fst e = x) (entries r) = []"
      by (simp add: filter_empty_conv)
    moreover have "x \<noteq> k" using lt by simp
    ultimately show ?thesis
      using lt TreeNode.IH(1) [OF bl] by simp
  next
    case gt
    have "fst e \<noteq> x" if "e \<in> set (entries l)" for e
      using el [OF that] gt by auto
    then have "filter (\<lambda>e. fst e = x) (entries l) = []"
      by (simp add: filter_empty_conv)
    moreover have "x \<noteq> k" "\<not> x < k" using gt by simp_all
    ultimately show ?thesis
      using TreeNode.IH(2) [OF br] by simp
  next
    case eq
    have "fst e \<noteq> x" if "e \<in> set (entries l)" for e
      using el [OF that] eq by auto
    moreover have "fst e \<noteq> x" if "e \<in> set (entries r)" for e
      using er [OF that] eq by auto
    ultimately have "filter (\<lambda>e. fst e = x) (entries l) = []"
      "filter (\<lambda>e. fst e = x) (entries r) = []"
      by (simp_all add: filter_empty_conv)
    then show ?thesis
      using eq by simp
  qed
qed

subsection \<open>The successor\<close>

lemma leftmost_node_hd:
  "r \<noteq> Absent \<Longrightarrow>
   \<exists>sr. leftmost_node r = TreeNode (fst (hd (entries r))) (snd (hd (entries r))) Absent sr"
proof (induction r)
  case Absent
  then show ?case by simp
next
  case (TreeNode k v l rr)
  show ?case
  proof (cases "l = Absent")
    case True
    then show ?thesis by simp
  next
    case False
    then have "hd (entries (TreeNode k v l rr)) = hd (entries l)"
      by (simp add: hd_append entries_empty_iff)
    with False TreeNode.IH(1) show ?thesis
      by (simp del: entries.simps)
  qed
qed

lemma delete_rec_traced_lt:
  "x < k \<Longrightarrow> delete_rec_traced (TreeNode k v l r) x =
     ((TreeNode k v (fst (fst (delete_rec_traced l x))) r, snd (fst (delete_rec_traced l x))),
      snd (delete_rec_traced l x))"
  by (simp add: split_def Let_def)

lemma delete_rec_traced_gt:
  "k < x \<Longrightarrow> delete_rec_traced (TreeNode k v l r) x =
     ((TreeNode k v l (fst (fst (delete_rec_traced r x))), snd (fst (delete_rec_traced r x))),
      snd (delete_rec_traced r x))"
  by (auto simp: split_def Let_def)

lemma delete_rec_traced_leaf:
  "delete_rec_traced (TreeNode k v Absent Absent) k = ((Absent, True), [Leaf_case])"
  by simp

lemma delete_rec_traced_right_only:
  "r \<noteq> Absent \<Longrightarrow>
   delete_rec_traced (TreeNode k v Absent r) k = ((r, True), [One_child_case])"
  by (cases r) simp_all

lemma delete_rec_traced_left_only:
  "l \<noteq> Absent \<Longrightarrow>
   delete_rec_traced (TreeNode k v l Absent) k = ((l, True), [One_child_case])"
  by (cases l) simp_all

lemma delete_rec_traced_two_children:
  "l \<noteq> Absent \<Longrightarrow> r \<noteq> Absent \<Longrightarrow>
   delete_rec_traced (TreeNode k v l r) k =
     ((TreeNode (fst (hd (entries r))) (snd (hd (entries r))) l
         (fst (fst (delete_rec_traced r (fst (hd (entries r)))))), True),
      Two_children_case # snd (delete_rec_traced r (fst (hd (entries r)))))"
  apply (subst delete_rec_traced.simps(2))
  apply (cases l; cases r)
  apply (simp_all add: Let_def split_def successor_loop_hd hd_append entries_empty_iff
      del: delete_rec_traced.simps)
  done

lemma delete_rec_traced_fst: "fst (delete_rec_traced t x) = delete_rec t x"
proof (induction t arbitrary: x)
  case Absent
  show ?case by simp
next
  case (TreeNode k v l r)
  consider (lt) "x < k" | (gt) "k < x" | (eq) "x = k"
    by (meson less_linear)
  then show ?case
  proof cases
    case lt
    show ?thesis
      unfolding delete_rec_traced_lt [OF lt] delete_rec_lt [OF lt]
      using TreeNode.IH(1) [of x, symmetric] by simp
  next
    case gt
    show ?thesis
      unfolding delete_rec_traced_gt [OF gt] delete_rec_gt [OF gt]
      using TreeNode.IH(2) [of x, symmetric] by simp
  next
    case eq
    show ?thesis
    proof (cases "l = Absent")
      case True
      then show ?thesis
        unfolding eq
        by (cases "r = Absent")
          (simp_all add: delete_rec_traced_leaf delete_rec_traced_right_only delete_rec_leaf
            delete_rec_right_only del: delete_rec.simps(2) delete_rec_traced.simps(2))
    next
      case False
      note l_node = False
      show ?thesis
      proof (cases "r = Absent")
        case True
        with l_node show ?thesis
          unfolding eq
          by (simp add: delete_rec_traced_left_only delete_rec_left_only
              del: delete_rec.simps(2) delete_rec_traced.simps(2))
      next
        case False
        show ?thesis
          unfolding eq delete_rec_traced_two_children [OF l_node False]
            delete_rec_two_children [OF l_node False]
          using TreeNode.IH(2) [of "fst (hd (entries r))", symmetric] by simp
      qed
    qed
  qed
qed

lemma entries_splice_leftmost: "entries (splice_leftmost t) = tl (entries t)"
proof (induction t)
  case Absent
  show ?case by simp
next
  case (TreeNode k v l r)
  show ?case
  proof (cases "l = Absent")
    case True
    then show ?thesis by simp
  next
    case False
    then have "entries l \<noteq> []" by (simp add: entries_empty_iff)
    with False TreeNode.IH(1) show ?thesis by simp
  qed
qed

lemma count_splice_leftmost:
  "t \<noteq> Absent \<Longrightarrow> Suc (count_nodes (splice_leftmost t)) = count_nodes t"
  by (induction t) auto

lemma delete_least_traced:
  "bst_ordered t \<Longrightarrow> t \<noteq> Absent \<Longrightarrow>
   \<exists>sr. leftmost_node t = TreeNode (fst (hd (entries t))) (snd (hd (entries t))) Absent sr \<and>
     delete_rec_traced t (fst (hd (entries t))) =
       ((splice_leftmost t, True), [if sr = Absent then Leaf_case else One_child_case])"
proof (induction t)
  case Absent
  then show ?case by simp
next
  case (TreeNode k v l r)
  show ?case
  proof (cases "l = Absent")
    case True
    then show ?thesis
      by (cases "r = Absent")
        (simp_all add: delete_rec_traced_leaf delete_rec_traced_right_only
          del: delete_rec_traced.simps(2))
  next
    case False
    then have hd_eq: "hd (entries (TreeNode k v l r)) = hd (entries l)"
      by (simp add: hd_append entries_empty_iff)
    have "fst (hd (entries l)) \<in> set (inorder_keys l)"
      using hd_entries_in [OF False] by (simp add: inorder_keys_entries)
    then have lt: "fst (hd (entries l)) < k"
      using TreeNode.prems(1) by simp
    have "bst_ordered l"
      using TreeNode.prems(1) by simp
    from TreeNode.IH(1) [OF this False] obtain sr where
      lm: "leftmost_node l = TreeNode (fst (hd (entries l))) (snd (hd (entries l))) Absent sr"
      and tr: "delete_rec_traced l (fst (hd (entries l))) =
        ((splice_leftmost l, True), [if sr = Absent then Leaf_case else One_child_case])"
      by blast
    have "leftmost_node (TreeNode k v l r) =
        TreeNode (fst (hd (entries l))) (snd (hd (entries l))) Absent sr"
      using False lm by simp
    moreover have "delete_rec_traced (TreeNode k v l r) (fst (hd (entries l))) =
        ((splice_leftmost (TreeNode k v l r), True),
         [if sr = Absent then Leaf_case else One_child_case])"
      unfolding delete_rec_traced_lt [OF lt] tr using False by simp
    ultimately show ?thesis
      unfolding hd_eq by blast
  qed
qed

section \<open>The properties\<close>

subsection \<open>C1: the ordering invariant\<close>

text \<open>
  C1. Every tree obtained from the empty tree by a sequence of \<^verbatim>\<open>insert\<close> and
  \<^verbatim>\<open>delete\<close> calls satisfies the ordering invariant: at every node the keys of
  the left subtree are strictly smaller and the keys of the right subtree are
  strictly greater than the node's key. Its in-order traversal is strictly
  ascending, so no key occurs twice. For any tree at all, the invariant and the
  strictly ascending traversal are equivalent.
\<close>

theorem ordering_invariant:
  fixes ops :: "('k::linorder, 'v) op list" and t :: "('k, 'v) tree"
  shows "bst_ordered (root (run_ops ops)) \<and>
         sorted_wrt (<) (inorder_keys (root (run_ops ops))) \<and>
         distinct (inorder_keys (root (run_ops ops))) \<and>
         (bst_ordered t \<longleftrightarrow> sorted_wrt (<) (inorder_keys t))"
proof -
  have "bst_ordered (root (run_ops ops))"
    unfolding run_ops_def by (rule bst_foldl_apply_op) (simp add: init_def)
  then show ?thesis
    using bst_ordered_iff_sorted bst_ordered_distinct by blast
qed

theorem ordering_invariant_witness:
  "inorder_keys (root (run_ops
      [Insert (5::int) ''root'', Insert 3 ''left'', Insert 7 ''right'', Insert 2 ''leaf'',
       Insert 4 ''mid'', Delete 3, Insert 6 ''new'', Delete 9])) = [2, 4, 5, 6, 7] \<and>
   bst_ordered (root (run_ops
      [Insert (5::int) ''root'', Insert 3 ''left'', Insert 7 ''right'', Insert 2 ''leaf'',
       Insert 4 ''mid'', Delete 3, Insert 6 ''new'', Delete 9]))"
proof -
  let ?ops = "[Insert (5::int) ''root'', Insert 3 ''left'', Insert 7 ''right'', Insert 2 ''leaf'',
       Insert 4 ''mid'', Delete 3, Insert 6 ''new'', Delete 9]"
  have "inorder_keys (root (run_ops ?ops)) = [2, 4, 5, 6, 7]"
    by (simp add: run_ops_def init_def insert_bst_def delete_unfold)
  then show ?thesis
    using ordering_invariant [of ?ops Absent] by simp
qed

subsection \<open>C2: deleting a key that is present\<close>

text \<open>
  C2. In a tree that satisfies the ordering invariant, \<^verbatim>\<open>delete(k)\<close> of a key
  that some node holds returns \<^verbatim>\<open>True\<close>, a \<^verbatim>\<open>search(k)\<close> on the tree after the
  call returns \<^verbatim>\<open>None\<close>, and the tree after the call has one node less than the
  tree before it.
\<close>

theorem delete_present:
  assumes "bst_ordered (root self)" and "key \<in> set (inorder_keys (root self))"
  shows "snd (delete self key) = True \<and>
         search (fst (delete self key)) key = None \<and>
         count_nodes (root (fst (delete self key))) + 1 = count_nodes (root self)"
  using assms delete_rec_present [of "root self" key] search_delete_rec [of "root self" key key]
  by (simp add: delete_unfold search_def)

theorem delete_present_witness:
  "bst_ordered (root demo) \<and> 3 \<in> set (inorder_keys (root demo)) \<and>
   snd (delete demo 3) = True \<and>
   search (fst (delete demo 3)) 3 = None \<and>
   count_nodes (root (fst (delete demo 3))) + 1 = count_nodes (root demo) \<and>
   count_nodes (root demo) = 5"
proof -
  have valid: "bst_ordered (root demo)"
    by (simp add: demo_root)
  have present: "3 \<in> set (inorder_keys (root demo))"
    by (simp add: demo_root)
  have "count_nodes (root demo) = 5"
    by (simp add: demo_root)
  then show ?thesis
    using valid present delete_present [OF valid present] by simp
qed

subsection \<open>C4: deleting a key that is absent\<close>

text \<open>
  C4. \<^verbatim>\<open>delete(k)\<close> of a key that no node holds returns \<^verbatim>\<open>False\<close> and leaves the
  tree as it was: the same structure, hence the same height, the same result
  of \<^verbatim>\<open>is_balanced\<close> and the same result of \<^verbatim>\<open>search\<close> for every key. This holds
  for every tree, in particular for those that satisfy the ordering invariant.
\<close>

theorem delete_absent:
  assumes "key \<notin> set (inorder_keys (root self))"
  shows "delete self key = (self, False) \<and>
         height (fst (delete self key)) = height self \<and>
         is_balanced (fst (delete self key)) = is_balanced self \<and>
         search (fst (delete self key)) k = search self k"
proof -
  have "delete self key = (self, False)"
    using assms by (simp add: delete_unfold delete_rec_absent_key)
  then show ?thesis by simp
qed

theorem delete_absent_witness:
  "9 \<notin> set (inorder_keys (root demo)) \<and> bst_ordered (root demo) \<and>
   delete demo 9 = (demo, False) \<and>
   height (fst (delete demo 9)) = height demo \<and>
   is_balanced (fst (delete demo 9)) = is_balanced demo \<and>
   search (fst (delete demo 9)) 4 = search demo 4"
proof -
  have absent: "9 \<notin> set (inorder_keys (root demo))"
    by (simp add: demo_root)
  have "bst_ordered (root demo)"
    by (simp add: demo_root)
  then show ?thesis
    using absent delete_absent [OF absent, of 4] by simp
qed

subsection \<open>C7: the single-pass balance check\<close>

text \<open>
  C7. The pair computed by \<^verbatim>\<open>_check\<close> for a subtree is the height that
  \<^verbatim>\<open>_height\<close> computes for it, and the truth value of the naive definition of
  balance: at every node of the subtree, the heights of the left and right
  subtree differ by at most 1. So \<^verbatim>\<open>is_balanced\<close> returns \<^verbatim>\<open>True\<close> exactly when
  the naive definition holds of the whole tree. An absent subtree is balanced
  and has height 0.
\<close>

theorem is_balanced_refines_naive:
  "check_rec t = (height_rec t, balanced_naive t) \<and>
   is_balanced self = balanced_naive (root self) \<and>
   check_rec Absent = (0, True)"
proof -
  have "check_rec t = (height_rec t, balanced_naive t)"
    by (rule check_rec_eq)
  then show ?thesis
    by (simp add: is_balanced_unfold check_rec_eq [of "root self"])
qed

theorem is_balanced_refines_naive_witness:
  "check_rec (root demo) = (height_rec (root demo), balanced_naive (root demo)) \<and>
   is_balanced demo = balanced_naive (root demo) \<and>
   check_rec (root demo) = (3, True)"
proof -
  have "check_rec (root demo) = (3, True)"
    by (simp add: demo_root)
  then show ?thesis
    using is_balanced_refines_naive [of "root demo" demo] by simp
qed

subsection \<open>C10: deletion does not disturb other keys\<close>

text \<open>
  C10. In a tree that satisfies the ordering invariant, \<^verbatim>\<open>delete(k)\<close> leaves the
  result of \<^verbatim>\<open>search(k')\<close> unchanged for every key \<^verbatim>\<open>k'\<close> other than \<^verbatim>\<open>k\<close>,
  whichever structural case the deletion takes.
\<close>

theorem delete_frame:
  assumes "bst_ordered (root self)" and "k \<noteq> k'"
  shows "search (fst (delete self k)) k' = search self k'"
  using assms search_delete_rec [of "root self" k k']
  by (simp add: delete_unfold search_def)

theorem delete_frame_witness:
  "bst_ordered (root demo) \<and> (3::int) \<noteq> 4 \<and>
   search (fst (delete demo 3)) 4 = search demo 4 \<and> search demo 4 = Some ''mid''"
proof -
  have valid: "bst_ordered (root demo)"
    by (simp add: demo_root)
  have neq: "(3::int) \<noteq> 4"
    by simp
  have "search demo 4 = Some ''mid''"
    by (simp add: search_def demo_root)
  then show ?thesis
    using valid delete_frame [OF valid neq] by simp
qed

subsection \<open>C8: the height\<close>

text \<open>
  C8. \<^verbatim>\<open>height()\<close> returns the number of nodes on the longest path from the root
  to a leaf. It obeys the recursion \<^verbatim>\<open>height(absent) = 0\<close> and
  \<^verbatim>\<open>height(node) = 1 + max(height(left), height(right))\<close>; the empty tree has
  height 0 and a tree of a single node has height 1.
\<close>

theorem height_longest_path:
  "height self = longest_path_nodes (root self) \<and>
   height_rec Absent = 0 \<and>
   height_rec (TreeNode k v l r) = 1 + max (height_rec l) (height_rec r) \<and>
   height init = 0 \<and>
   height (insert_bst init k v) = 1 \<and>
   height (self\<lparr>root := TreeNode k v Absent Absent\<rparr>) = 1"
  by (simp add: height_def height_rec_longest_path [symmetric] init_def insert_bst_def)

theorem height_longest_path_witness:
  "height demo = longest_path_nodes (root demo) \<and> height demo = 3 \<and>
   root_to_leaf_paths (root demo) = [[5, 3, 2], [5, 3, 4], [5, 7]]"
proof -
  have "root_to_leaf_paths (root demo) = [[5, 3, 2], [5, 3, 4], [5, 7]]"
    by (simp add: demo_root)
  moreover have "height demo = 3"
    by (simp add: height_def demo_root)
  moreover have "height demo = longest_path_nodes (root demo)"
    using height_longest_path [of demo 0 "''a''" Absent Absent] by (rule conjunct1)
  ultimately show ?thesis
    by (simp only: simp_thms)
qed

subsection \<open>C9: bounds on the height\<close>

text \<open>
  C9. For a tree of \<^verbatim>\<open>n\<close> nodes, \<^verbatim>\<open>n\<close> being any natural number, \<^verbatim>\<open>height()\<close>
  returns at least the ceiling of the binary logarithm of \<^verbatim>\<open>n + 1\<close> and at most
  \<^verbatim>\<open>n\<close>. The lower bound says that \<^verbatim>\<open>n + 1\<close> is at most 2 to the power of the
  height.
\<close>

theorem height_bounds:
  "\<lceil>log 2 (real (count_nodes (root self)) + 1)\<rceil> \<le> height self \<and>
   height self \<le> int (count_nodes (root self)) \<and>
   int (count_nodes (root self)) + 1 \<le> 2 ^ nat (height self)"
proof -
  let ?n = "count_nodes (root self)" and ?h = "height_rec (root self)"
  have b: "int ?n + 1 \<le> 2 ^ nat ?h" by (rule count_nodes_bound)
  then have "(of_int (int ?n + 1) :: real) \<le> of_int (2 ^ nat ?h)"
    by (simp only: of_int_le_iff)
  then have "real ?n + 1 \<le> 2 ^ nat ?h"
    by simp
  then have "log 2 (real ?n + 1) \<le> log 2 (2 ^ nat ?h)"
    by (intro log_mono) simp_all
  also have "\<dots> = real (nat ?h)"
    by (rule log_pow_cancel) simp_all
  also have "\<dots> = of_int ?h"
    using height_rec_nonneg [of "root self"] by simp
  finally have "\<lceil>log 2 (real ?n + 1)\<rceil> \<le> ?h"
    by (simp only: ceiling_le_iff)
  with b show ?thesis
    by (simp add: height_def height_le_count)
qed

theorem height_bounds_witness:
  "\<lceil>log 2 (real (count_nodes (root demo)) + 1)\<rceil> \<le> height demo \<and>
   height demo \<le> int (count_nodes (root demo)) \<and>
   height demo = 3 \<and> count_nodes (root demo) = 5"
proof -
  have "height demo = 3" "count_nodes (root demo) = 5"
    by (simp_all add: height_def demo_root)
  then show ?thesis
    using height_bounds [of demo] by simp
qed

subsection \<open>C3: insertion followed by search\<close>

text \<open>
  C3. Right after \<^verbatim>\<open>insert(k, v)\<close>, \<^verbatim>\<open>search(k)\<close> returns \<^verbatim>\<open>v\<close>; this holds for
  every tree, so for every one that satisfies the ordering invariant. After a
  sequence of insertions into the empty tree, \<^verbatim>\<open>search(k)\<close> returns the value
  of the last insertion of \<^verbatim>\<open>k\<close> in the sequence, and \<^verbatim>\<open>None\<close> if \<^verbatim>\<open>k\<close> was never
  inserted. When the inserted keys are distinct, each inserted pair is found.
\<close>

theorem insert_then_search:
  fixes self :: "('k::linorder, 'v) BinarySearchTree"
  shows "search (insert_bst self key val) key = Some val \<and>
         search (insert_all kvs) k = map_of (rev kvs) k \<and>
         (distinct (map fst kvs) \<and> (k, v) \<in> set kvs \<longrightarrow> search (insert_all kvs) k = Some v) \<and>
         (k \<notin> fst ` set kvs \<longrightarrow> search (insert_all kvs) k = None)"
proof -
  have "map_of (rev kvs) k = Some v" if "distinct (map fst kvs)" "(k, v) \<in> set kvs"
    using that by (simp add: rev_map [symmetric])
  moreover have "map_of (rev kvs) k = None" if "k \<notin> fst ` set kvs"
    using that by (simp add: map_of_eq_None_iff)
  ultimately show ?thesis
    by (simp add: search_insert_bst search_insert_all)
qed

theorem insert_then_search_witness:
  "search (insert_bst demo 4 ''new'') 4 = Some ''new'' \<and>
   distinct (map fst [(5::int, ''root''), (3, ''left''), (7, ''right'')]) \<and>
   (3, ''left'') \<in> set [(5::int, ''root''), (3, ''left''), (7, ''right'')] \<and>
   search (insert_all [(5::int, ''root''), (3, ''left''), (7, ''right'')]) 3 = Some ''left'' \<and>
   9 \<notin> fst ` set [(5::int, ''root''), (3, ''left''), (7, ''right'')] \<and>
   search (insert_all [(5::int, ''root''), (3, ''left''), (7, ''right'')]) 9 = None"
  using insert_then_search [of demo 4 "''new''"
      "[(5::int, ''root''), (3, ''left''), (7, ''right'')]" 3 "''left''"]
    insert_then_search [of demo 4 "''new''"
      "[(5::int, ''root''), (3, ''left''), (7, ''right'')]" 9 "''left''"]
  by simp

subsection \<open>C5: promotion of the in-order successor\<close>

text \<open>
  C5. In a tree that satisfies the ordering invariant, when \<^verbatim>\<open>_delete\<close> stops at
  a node that holds the target and has two children, the result is that node
  with the key and the value of the leftmost node of its right subtree, the
  same left subtree, and the right subtree after the recursive deletion of
  that key. The leftmost node has no left child and holds the least key of the
  right subtree, which is greater than the deleted key. The recursive deletion
  returns \<^verbatim>\<open>True\<close> and the right subtree with exactly that leftmost node taken
  out, its right child in its place: the successor's key is gone from it, it
  has one node less, and its in-order traversal is the old one without the
  first entry. So the traversal of the whole result is the old one without the
  deleted node. The deletion goes through the two-children case once, and
  then through the leaf case (when the leftmost node has no right child) or
  the one-child case, never through the two-children case again. The record of
  cases belongs to the same computation: its result is that of \<^verbatim>\<open>_delete\<close> on
  every tree and target.
\<close>

theorem successor_promotion:
  assumes "bst_ordered (TreeNode k v l r)" and "l \<noteq> Absent" and "r \<noteq> Absent"
  shows "(\<exists>sk sv sr c.
           leftmost_node r = TreeNode sk sv Absent sr \<and>
           k < sk \<and> (\<forall>a \<in> set (inorder_keys r). sk \<le> a) \<and>
           delete_rec (TreeNode k v l r) k =
             (TreeNode sk sv l (fst (delete_rec r sk)), True) \<and>
           delete_rec r sk = (splice_leftmost r, True) \<and>
           entries (fst (delete_rec r sk)) = tl (entries r) \<and>
           sk \<notin> set (inorder_keys (fst (delete_rec r sk))) \<and>
           Suc (count_nodes (fst (delete_rec r sk))) = count_nodes r \<and>
           entries (fst (delete_rec (TreeNode k v l r) k)) = entries l @ entries r \<and>
           delete_rec_traced (TreeNode k v l r) k =
             (delete_rec (TreeNode k v l r) k, [Two_children_case, c]) \<and>
           delete_rec_traced r sk = (delete_rec r sk, [c]) \<and>
           c \<in> {Leaf_case, One_child_case} \<and>
           (c = Leaf_case \<longleftrightarrow> sr = Absent)) \<and>
         fst (delete_rec_traced t x) = delete_rec t x"
proof -
  define sk where "sk = fst (hd (entries r))"
  define sv where "sv = snd (hd (entries r))"
  have br: "bst_ordered r"
    using assms(1) by simp
  obtain sr where lm: "leftmost_node r = TreeNode sk sv Absent sr"
    and tr: "delete_rec_traced r sk =
      ((splice_leftmost r, True), [if sr = Absent then Leaf_case else One_child_case])"
    unfolding sk_def sv_def using delete_least_traced [OF br assms(3)] by blast
  define c where "c = (if sr = Absent then Leaf_case else One_child_case)"
  have c: "c \<in> {Leaf_case, One_child_case}" "c = Leaf_case \<longleftrightarrow> sr = Absent"
    by (simp_all add: c_def)
  have rec: "delete_rec r sk = (splice_leftmost r, True)"
    using delete_rec_traced_fst [of r sk] tr by simp
  have tr_rec: "delete_rec_traced r sk = (delete_rec r sk, [c])"
    using tr rec by (simp add: c_def)
  have hd_r: "hd (entries r) = (sk, sv)" and ne: "entries r \<noteq> []"
    using assms(3) by (simp_all add: sk_def sv_def entries_empty_iff)
  have key_in: "sk \<in> set (inorder_keys r)"
    unfolding sk_def using hd_entries_in [OF assms(3)] by (simp add: inorder_keys_entries)
  then have above: "k < sk"
    using assms(1) by simp
  have least: "\<forall>a \<in> set (inorder_keys r). sk \<le> a"
    unfolding sk_def using hd_entries_least [OF br] by blast
  have res: "delete_rec (TreeNode k v l r) k = (TreeNode sk sv l (fst (delete_rec r sk)), True)"
    unfolding sk_def sv_def using assms(2,3) by (rule delete_rec_two_children)
  have ent: "entries (fst (delete_rec r sk)) = tl (entries r)"
    by (simp add: rec entries_splice_leftmost)
  have keys_r: "inorder_keys r = sk # inorder_keys (fst (delete_rec r sk))"
  proof -
    have "entries r = (sk, sv) # tl (entries r)"
      using hd_r ne by (metis list.collapse)
    then have "map fst (entries r) = sk # map fst (tl (entries r))"
      by (metis list.simps(9) fst_conv)
    then show ?thesis
      by (simp add: inorder_keys_entries ent)
  qed
  have gone: "sk \<notin> set (inorder_keys (fst (delete_rec r sk)))"
    using bst_ordered_distinct [OF br] keys_r by simp
  have cnt: "Suc (count_nodes (fst (delete_rec r sk))) = count_nodes r"
    using assms(3) by (simp add: rec count_splice_leftmost)
  have all: "entries (fst (delete_rec (TreeNode k v l r) k)) = entries l @ entries r"
  proof -
    have "entries r = (sk, sv) # tl (entries r)"
      using hd_r ne by (metis list.collapse)
    then show ?thesis
      unfolding res using ent by simp
  qed
  have tr_top: "delete_rec_traced (TreeNode k v l r) k =
      (delete_rec (TreeNode k v l r) k, [Two_children_case, c])"
    unfolding delete_rec_traced_two_children [OF assms(2,3)] delete_rec_two_children [OF assms(2,3)]
    using tr_rec by (simp add: sk_def)
  have link: "fst (delete_rec_traced t x) = delete_rec t x"
    by (rule delete_rec_traced_fst)
  from lm above least res rec ent gone cnt all tr_top tr_rec c link show ?thesis
    by blast
qed

theorem successor_promotion_witness:
  "bst_ordered (TreeNode (5::int) ''e'' (TreeNode 3 ''c'' Absent Absent)
     (TreeNode 8 ''h'' (TreeNode 6 ''f'' Absent (TreeNode 7 ''g'' Absent Absent))
        (TreeNode 9 ''i'' Absent Absent))) \<and>
   delete_rec_traced (TreeNode (5::int) ''e'' (TreeNode 3 ''c'' Absent Absent)
     (TreeNode 8 ''h'' (TreeNode 6 ''f'' Absent (TreeNode 7 ''g'' Absent Absent))
        (TreeNode 9 ''i'' Absent Absent))) 5 =
     ((TreeNode 6 ''f'' (TreeNode 3 ''c'' Absent Absent)
         (TreeNode 8 ''h'' (TreeNode 7 ''g'' Absent Absent) (TreeNode 9 ''i'' Absent Absent)),
       True),
      [Two_children_case, One_child_case]) \<and>
   (\<exists>sk sv sr c.
      leftmost_node (TreeNode 8 ''h'' (TreeNode 6 ''f'' Absent (TreeNode 7 ''g'' Absent Absent))
        (TreeNode 9 ''i'' Absent Absent)) = TreeNode sk sv Absent sr \<and>
      (5::int) < sk \<and>
      delete_rec (TreeNode 8 ''h'' (TreeNode 6 ''f'' Absent (TreeNode 7 ''g'' Absent Absent))
        (TreeNode 9 ''i'' Absent Absent)) sk =
        (splice_leftmost (TreeNode 8 ''h'' (TreeNode 6 ''f'' Absent (TreeNode 7 ''g'' Absent Absent))
          (TreeNode 9 ''i'' Absent Absent)), True) \<and>
      sk \<notin> set (inorder_keys (fst (delete_rec
        (TreeNode 8 ''h'' (TreeNode 6 ''f'' Absent (TreeNode 7 ''g'' Absent Absent))
          (TreeNode 9 ''i'' Absent Absent)) sk))) \<and>
      c \<in> {Leaf_case, One_child_case})"
proof -
  let ?l = "TreeNode (3::int) ''c'' Absent Absent"
  let ?r = "TreeNode (8::int) ''h'' (TreeNode 6 ''f'' Absent (TreeNode 7 ''g'' Absent Absent))
        (TreeNode 9 ''i'' Absent Absent)"
  have valid: "bst_ordered (TreeNode 5 ''e'' ?l ?r)"
    by simp
  have left: "?l \<noteq> Absent" and right: "?r \<noteq> Absent"
    by simp_all
  have run: "delete_rec_traced (TreeNode 5 ''e'' ?l ?r) 5 =
      ((TreeNode 6 ''f'' ?l
         (TreeNode 8 ''h'' (TreeNode 7 ''g'' Absent Absent) (TreeNode 9 ''i'' Absent Absent)),
        True),
       [Two_children_case, One_child_case])"
    by simp
  show ?thesis
    using valid run successor_promotion [OF valid left right, of Absent 5] by blast
qed

subsection \<open>C6: inserting a key twice\<close>

text \<open>
  C6. In a tree that satisfies the ordering invariant, after \<^verbatim>\<open>insert(k, v1)\<close>
  and then \<^verbatim>\<open>insert(k, v2)\<close> exactly one node holds the key \<^verbatim>\<open>k\<close>, and it holds
  the value \<^verbatim>\<open>v2\<close>. The second insertion changes no structure: the tree has the
  same shape, the same number of nodes and the same keys in the same places as
  after the first insertion.
\<close>

theorem insert_overwrite:
  assumes "bst_ordered (root self)"
  shows "filter (\<lambda>e. fst e = key)
           (entries (root (insert_bst (insert_bst self key v1) key v2))) = [(key, v2)] \<and>
         search (insert_bst (insert_bst self key v1) key v2) key = Some v2 \<and>
         shape (root (insert_bst (insert_bst self key v1) key v2)) =
           shape (root (insert_bst self key v1)) \<and>
         count_nodes (root (insert_bst (insert_bst self key v1) key v2)) =
           count_nodes (root (insert_bst self key v1)) \<and>
         inorder_keys (root (insert_bst (insert_bst self key v1) key v2)) =
           inorder_keys (root (insert_bst self key v1))"
proof -
  let ?t1 = "insert_bst self key v1" and ?t2 = "insert_bst self key v2"
  have valid: "bst_ordered (root ?t2)"
    using assms by (rule bst_insert_bst)
  have found: "search_loop (root ?t2) key = Some v2"
    using search_insert_bst [of self key v2 key] by (simp add: search_def)
  have one: "filter (\<lambda>e. fst e = key) (entries (root ?t2)) = [(key, v2)]"
    using filter_key_entries [OF valid, of key] found by simp
  have sh: "shape (root ?t2) = shape (root ?t1)"
    by (rule shape_insert_bst)
  have cnt: "count_nodes (root ?t2) = count_nodes (root ?t1)"
    using sh count_nodes_shape by metis
  have keys: "inorder_keys (root ?t2) = inorder_keys (root ?t1)"
    by (rule keys_insert_bst_value)
  show ?thesis
    unfolding insert_bst_twice
    using one found sh cnt keys by (simp add: search_def)
qed

theorem insert_overwrite_witness:
  "bst_ordered (root demo) \<and>
   filter (\<lambda>e. fst e = 3)
     (entries (root (insert_bst (insert_bst demo 3 ''a'') 3 ''b''))) = [(3, ''b'')] \<and>
   shape (root (insert_bst (insert_bst demo 3 ''a'') 3 ''b'')) =
     shape (root (insert_bst demo 3 ''a'')) \<and>
   count_nodes (root (insert_bst (insert_bst demo 3 ''a'') 3 ''b'')) =
     count_nodes (root (insert_bst demo 3 ''a''))"
proof -
  have valid: "bst_ordered (root demo)"
    by (simp add: demo_root)
  show ?thesis
    using valid insert_overwrite [OF valid, of 3 "''a''" "''b''"] by blast
qed

end
